theory Spec2Isabelle
  imports Main "HOL-Library.AList" "HOL-Library.Char_ord" "HOL-Library.List_Lexorder"
begin

section \<open>Data model of the focused database mapper\<close>

text \<open>
  The class \<open>FocusedDatabaseMapper\<close> of \<open>focused_mapper.py\<close> keeps a foreign-key graph of
  the tables in scope, a cache of whole mappings and a cache of path queries. Python
  strings are modelled by their UTF-8 bytes (\<open>string\<close>), Python dictionaries by
  association lists in insertion order (looked up with \<open>map_of\<close>, written with
  \<open>AList.update\<close>), Python sets of table names by \<open>string set\<close>, and Python's unbounded
  integers by \<open>int\<close>.
\<close>

text \<open>A relation entry is a Python sequence \<open>(other_table, column, column)\<close>. The mapping
  run appends it as a tuple; \<open>json.dump\<close> writes a tuple and a list alike as a JSON array,
  and \<open>json.load\<close> gives every array back as a list. The two kinds of sequence are
  different Python values, so an entry carries its kind. In the file an entry is the
  array of its three strings.\<close>

datatype seq_kind = PyTuple | PyList

type_synonym rel = "string \<times> string \<times> string \<times> seq_kind"

type_synonym jrel = "string \<times> string \<times> string"

type_synonym path = "string list"

type_synonym qentry = "string \<times> path"

type_synonym 'v dict = "(string \<times> 'v) list"

text \<open>A column descriptor \<open>{'name': ..., 'type': ...}\<close>.\<close>

record column =
  col_name :: string
  col_type :: string

text \<open>A value of the path cache, as \<open>_save_to_cache\<close> builds it.\<close>

record cache_entry =
  ce_paths :: "path list"
  ce_timestamp :: string
  ce_source :: string
  ce_target :: string
  ce_max_depth :: int

text \<open>What a key of the mapping cache holds: nothing (the read takes its default), a value
  of the shape the program writes, or a value of another shape, on which the statement
  that reads it raises (\<open>set(...)\<close> of a number, \<open>.items()\<close> of a list).\<close>

datatype 'a jval = Absent | Value 'a | Malformed

text \<open>The mapping cache in memory, the dictionary \<open>json.load\<close> returned, and the JSON
  document in the file. The object without any of its keys is the empty dictionary.\<close>

record mcache =
  mc_patterns :: "string list jval"
  mc_db_info :: "string option"
  mc_timestamp :: "string option"
  mc_table_columns :: "column list dict option"
  mc_relationships :: "rel list dict jval"
  mc_reverse_relationships :: "rel list dict jval"
  mc_all_tables :: "string list jval"
  mc_total_tables :: "nat option"
  mc_total_fks :: "nat option"

record mfile =
  mf_patterns :: "string list jval"
  mf_db_info :: "string option"
  mf_timestamp :: "string option"
  mf_table_columns :: "column list dict option"
  mf_relationships :: "jrel list dict jval"
  mf_reverse_relationships :: "jrel list dict jval"
  mf_all_tables :: "string list jval"
  mf_total_tables :: "nat option"
  mf_total_fks :: "nat option"

definition empty_mcache :: mcache where
  "empty_mcache = \<lparr> mc_patterns = Absent, mc_db_info = None, mc_timestamp = None,
     mc_table_columns = None, mc_relationships = Absent, mc_reverse_relationships = Absent,
     mc_all_tables = Absent, mc_total_tables = None, mc_total_fks = None \<rparr>"

text \<open>The mapper object. \<open>cache_file\<close> and \<open>mapping_cache_file\<close> stand for the content of
  the two JSON files the object names (\<open>None\<close>: the file is missing or cannot be parsed).
  The three flags record which objects the mapper shares with its mapping cache after
  \<open>_load_from_mapping_cache\<close> stored the cache's own objects: \<open>columns_shared\<close> says that
  \<open>table_columns\<close> is the dictionary under the cache's key \<open>table_columns\<close>;
  \<open>rel_shared\<close> and \<open>rev_shared\<close> say that under every key of the cache's index the
  mapper's list is the cache's list.\<close>

record mapper =
  db_type :: string
  connection_params :: "string dict"
  patterns :: "string list"
  relationships :: "rel list dict"
  reverse_relationships :: "rel list dict"
  table_columns :: "column list dict"
  all_tables :: "string set"
  cache_file :: "cache_entry dict option"
  path_cache :: "cache_entry dict"
  mapping_cache_file :: "mfile option"
  mapping_cache :: mcache
  columns_shared :: bool
  rel_shared :: bool
  rev_shared :: bool

text \<open>What the database answers during one mapping run: whether each of the two
  connections opens and closes, and the rows of each catalog query (\<open>None\<close>: the query
  raises).\<close>

record db =
  db_connect1 :: bool
  db_tables :: "string list option"
  db_neighbours :: "(string \<times> string option) list option"
  db_close1 :: bool
  db_connect2 :: bool
  db_fks :: "(string option \<times> string \<times> string option \<times> string) list option"
  db_columns :: "(string \<times> string \<times> string) list option"
  db_close2 :: bool

text \<open>The places where \<open>map_focused_relationships\<close> and \<open>get_relevant_tables\<close> call
  \<open>progress_callback\<close>, in the order of the source. A callback is absent or tells, for
  each place, whether the call there returns (\<open>True\<close>) or raises.\<close>

datatype site = Check | Loaded | Start | Search | Found | Expanded | NoTables | MapFks
  | MapColumns | Saving | Done | Error

type_synonym callback = "(site \<Rightarrow> bool) option"

definition call :: "callback \<Rightarrow> site \<Rightarrow> bool" where
  "call progress_callback x = (case progress_callback of None \<Rightarrow> True | Some f \<Rightarrow> f x)"

text \<open>The statement that raised. Closing the first connection happens in a \<open>finally\<close>
  block: its exception replaces the one that was on its way, which it keeps as
  context.\<close>

datatype failure = CallbackRaised site | Connect1 | TablesQuery | NeighboursQuery
  | Close1 "failure option" | Connect2 | FkQuery | ColumnsQuery | Close2


text \<open>Two library functions the mapper uses and the model takes as parameters:
  \<open>str.lower\<close>, and the order in which \<open>list(a_set)\<close> lists a set.\<close>

record pylib =
  str_lower :: "string \<Rightarrow> string"
  list_of_set :: "string set \<Rightarrow> string list"

section \<open>Dictionaries and strings\<close>

definition in_dict :: "string \<Rightarrow> 'v dict \<Rightarrow> bool" where
  "in_dict k d = (map_of d k \<noteq> None)"

text \<open>\<open>d.get(k, [])\<close>: no entry is created for a missing key.\<close>

definition dict_get :: "'v list dict \<Rightarrow> string \<Rightarrow> 'v list" where
  "dict_get d k = (case map_of d k of None \<Rightarrow> [] | Some v \<Rightarrow> v)"

text \<open>\<open>d[k].append(v)\<close> on a \<open>defaultdict(list)\<close>, and the explicit
  "create the empty list, then append" of the column catalog.\<close>

definition dict_append :: "'v list dict \<Rightarrow> string \<Rightarrow> 'v \<Rightarrow> 'v list dict" where
  "dict_append d k v = AList.update k (dict_get d k @ [v]) d"

definition opt_default :: "'a \<Rightarrow> 'a option \<Rightarrow> 'a" where
  "opt_default dflt x = (case x of None \<Rightarrow> dflt | Some v \<Rightarrow> v)"

text \<open>\<open>d.get(key, default)\<close> on the mapping cache, for a key whose value has the shape the
  program writes or is absent.\<close>

definition jdefault :: "'a \<Rightarrow> 'a jval \<Rightarrow> 'a" where
  "jdefault dflt x = (case x of Value v \<Rightarrow> v | _ \<Rightarrow> dflt)"

text \<open>\<open>p in t\<close> on strings.\<close>

fun contains :: "string \<Rightarrow> string \<Rightarrow> bool" where
  "contains p [] = (p = [])"
| "contains p (c # cs) = (take (length p) (c # cs) = p \<or> contains p cs)"

text \<open>Decimal rendering of an integer, as an f-string formats it.\<close>

fun str_nat :: "nat \<Rightarrow> string" where
  "str_nat n = (if n < 10 then [char_of (48 + n)]
                else str_nat (n div 10) @ [char_of (48 + n mod 10)])"

declare str_nat.simps [simp del]

definition str_int :: "int \<Rightarrow> string" where
  "str_int i = (if i < 0 then ''-'' @ str_nat (nat (- i)) else str_nat (nat i))"

text \<open>The character U+2192 (rightwards arrow) in UTF-8.\<close>

definition arrow :: string where
  "arrow = [CHR 0xE2, CHR 0x86, CHR 0x92]"

section \<open>Path cache\<close>

definition load_cache :: "cache_entry dict option \<Rightarrow> cache_entry dict" where
  "load_cache f = (case f of None \<Rightarrow> [] | Some d \<Rightarrow> d)"

text \<open>\<open>_save_cache\<close> rewrites the whole file from the dictionary in memory.\<close>

definition save_cache :: "mapper \<Rightarrow> mapper" where
  "save_cache s = s\<lparr>cache_file := Some (path_cache s)\<rparr>"

definition get_cache_key :: "string \<Rightarrow> string \<Rightarrow> int \<Rightarrow> string" where
  "get_cache_key source target max_depth = source @ arrow @ target @ '':'' @ str_int max_depth"

definition get_from_cache :: "mapper \<Rightarrow> string \<Rightarrow> string \<Rightarrow> int \<Rightarrow> cache_entry option" where
  "get_from_cache s source target max_depth =
     map_of (path_cache s) (get_cache_key source target max_depth)"

definition save_to_cache :: "string \<Rightarrow> mapper \<Rightarrow> string \<Rightarrow> string \<Rightarrow> int \<Rightarrow> path list \<Rightarrow> mapper" where
  "save_to_cache now s source target max_depth paths =
     save_cache (s\<lparr>path_cache :=
       AList.update (get_cache_key source target max_depth)
         \<lparr> ce_paths = paths, ce_timestamp = now, ce_source = source, ce_target = target,
           ce_max_depth = max_depth \<rparr>
         (path_cache s)\<rparr>)"

section \<open>Mapping cache\<close>

text \<open>\<open>json.load\<close> on the mapping cache file: every array comes back as a list.\<close>

definition from_json :: "jrel \<Rightarrow> rel" where
  "from_json r = (case r of (a, b, c) \<Rightarrow> (a, b, c, PyList))"

definition load_mapping_cache :: "mfile option \<Rightarrow> mcache" where
  "load_mapping_cache f =
     (case f of
        None \<Rightarrow> empty_mcache
      | Some m \<Rightarrow>
          \<lparr> mc_patterns = mf_patterns m, mc_db_info = mf_db_info m, mc_timestamp = mf_timestamp m,
            mc_table_columns = mf_table_columns m,
            mc_relationships = map_jval (map (\<lambda>(k, v). (k, map from_json v))) (mf_relationships m),
            mc_reverse_relationships =
              map_jval (map (\<lambda>(k, v). (k, map from_json v))) (mf_reverse_relationships m),
            mc_all_tables = mf_all_tables m, mc_total_tables = mf_total_tables m,
            mc_total_fks = mf_total_fks m \<rparr>)"

definition default_patterns :: "string list" where
  "default_patterns = [''pmact'', ''wf'', ''workflow'', ''activity'', ''process'', ''user'']"

text \<open>The constructor; its last two arguments are the contents of the two cache files it
  finds.\<close>

definition init :: "pylib \<Rightarrow> string \<Rightarrow> string dict \<Rightarrow> string list \<Rightarrow> cache_entry dict option \<Rightarrow>
    mfile option \<Rightarrow> mapper" where
  "init lib dbt params pats pfile mfile =
     \<lparr> db_type = str_lower lib dbt, connection_params = params,
       patterns = (if pats = [] then default_patterns else pats),
       relationships = [], reverse_relationships = [], table_columns = [], all_tables = {},
       cache_file = pfile, path_cache = load_cache pfile,
       mapping_cache_file = mfile, mapping_cache = load_mapping_cache mfile,
       columns_shared = False, rel_shared = False, rev_shared = False \<rparr>"

text \<open>The database fingerprint \<open>f"{db_type}_{database}"\<close>.\<close>

definition db_info :: "mapper \<Rightarrow> string" where
  "db_info s = db_type s @ ''_'' @ opt_default ''unknown'' (map_of (connection_params s) ''database'')"

text \<open>\<open>json.dump\<close> of a relation entry: the array of its three strings, whatever its
  kind.\<close>

definition to_json :: "rel \<Rightarrow> jrel" where
  "to_json r = (case r of (a, b, c, kind) \<Rightarrow> (a, b, c))"

text \<open>\<open>_save_mapping_cache\<close> writes the file and leaves the cache in memory as it is. (An
  exception while writing is caught inside the function and reported; the write is taken
  to succeed here.)\<close>

definition save_mapping_cache :: "pylib \<Rightarrow> string \<Rightarrow> mapper \<Rightarrow> mapper" where
  "save_mapping_cache lib now s = s\<lparr>mapping_cache_file := Some
     \<lparr> mf_patterns = Value (sort (patterns s)),
       mf_db_info = Some (db_info s),
       mf_timestamp = Some now,
       mf_table_columns = Some (table_columns s),
       mf_relationships = Value (map (\<lambda>(k, v). (k, map to_json v)) (relationships s)),
       mf_reverse_relationships =
         Value (map (\<lambda>(k, v). (k, map to_json v)) (reverse_relationships s)),
       mf_all_tables = Value (list_of_set lib (all_tables s)),
       mf_total_tables = Some (length (table_columns s)),
       mf_total_fks = Some (sum_list (map (\<lambda>(k, v). length v) (relationships s))) \<rparr>\<rparr>"

text \<open>The loop \<open>for table, relations in data.items(): d[table] = relations\<close> into a fresh
  dictionary.\<close>

definition rebuild :: "'v dict \<Rightarrow> 'v dict" where
  "rebuild data = fold (\<lambda>(table, relations) d. AList.update table relations d) data []"

text \<open>\<open>_load_from_mapping_cache\<close>. An exception inside it is caught and gives \<open>False\<close>, with
  the assignments made before it: a malformed pattern list raises before any
  assignment; a malformed index raises in \<open>.items()\<close>, after the index was replaced by
  an empty \<open>defaultdict\<close>; a malformed table list raises in \<open>set(...)\<close>.\<close>

definition load_from_mapping_cache :: "mapper \<Rightarrow> bool \<times> mapper" where
  "load_from_mapping_cache s =
     (let mc = mapping_cache s in
      if mc = empty_mcache then (False, s)
      else if mc_patterns mc = Malformed then (False, s)
      else
        let cached_patterns = set (jdefault [] (mc_patterns mc));
            current_patterns = set (patterns s);
            cached_db = opt_default '''' (mc_db_info mc);
            current_db = db_info s
        in if \<not> current_patterns \<subseteq> cached_patterns \<or> cached_db \<noteq> current_db then (False, s)
           else
             let s1 = s\<lparr>table_columns := opt_default [] (mc_table_columns mc),
                        columns_shared := (mc_table_columns mc \<noteq> None)\<rparr>
             in if mc_relationships mc = Malformed
                then (False, s1\<lparr>relationships := [], rel_shared := False\<rparr>)
                else
                  let s2 = s1\<lparr>relationships := rebuild (jdefault [] (mc_relationships mc)),
                             rel_shared := True\<rparr>
                  in if mc_reverse_relationships mc = Malformed
                     then (False, s2\<lparr>reverse_relationships := [], rev_shared := False\<rparr>)
                     else
                       let s3 = s2\<lparr>reverse_relationships :=
                                    rebuild (jdefault [] (mc_reverse_relationships mc)),
                                  rev_shared := True\<rparr>
                       in if mc_all_tables mc = Malformed then (False, s3)
                          else (True, s3\<lparr>all_tables := set (jdefault [] (mc_all_tables mc))\<rparr>))"

section \<open>Discovery of the relevant tables and the mapping run\<close>

text \<open>\<open>connect()\<close> followed by \<open>conn.cursor()\<close> returns a cursor: the database type is
  known and the connection opens. For any other type \<open>connect()\<close> returns \<open>None\<close> and
  \<open>cursor()\<close> raises.\<close>

definition open_cursor :: "mapper \<Rightarrow> bool \<Rightarrow> bool" where
  "open_cursor s ok =
     ((db_type s = ''postgresql'' \<or> db_type s = ''mysql'' \<or> db_type s = ''sqlite'') \<and> ok)"

definition is_sql :: "mapper \<Rightarrow> bool" where
  "is_sql s = (db_type s = ''postgresql'' \<or> db_type s = ''mysql'')"

text \<open>The truth value Python gives a value that is \<open>None\<close> or a string.\<close>

definition truthy :: "string option \<Rightarrow> bool" where
  "truthy x = (case x of None \<Rightarrow> False | Some v \<Rightarrow> v \<noteq> [])"

definition matches :: "pylib \<Rightarrow> string list \<Rightarrow> string \<Rightarrow> bool" where
  "matches lib pats table =
     list_ex (\<lambda>pattern. contains (str_lower lib pattern) (str_lower lib table)) pats"

definition add_neighbour :: "string \<times> string option \<Rightarrow> string set \<Rightarrow> string set" where
  "add_neighbour row relevant_tables =
     (case row of (r0, r1) \<Rightarrow>
        (if truthy r1 then insert (the r1) (insert r0 relevant_tables)
         else insert r0 relevant_tables))"

text \<open>The \<open>try\<close> block of \<open>get_relevant_tables\<close>. Only PostgreSQL and MySQL run the second
  query; on SQLite the second \<open>fetchall()\<close> finds the cursor exhausted. \<open>all_tables\<close> is
  assigned before the last callback.\<close>

definition relevant_body :: "pylib \<Rightarrow> callback \<Rightarrow> db \<Rightarrow> mapper \<Rightarrow> (failure + string set) \<times> mapper" where
  "relevant_body lib progress_callback d s =
     (if \<not> call progress_callback Search then (Inl (CallbackRaised Search), s)
      else
        (case db_tables d of
           None \<Rightarrow> (Inl TablesQuery, s)
         | Some tables \<Rightarrow>
           (let relevant_tables = set (filter (matches lib (patterns s)) tables) in
            if \<not> call progress_callback Found then (Inl (CallbackRaised Found), s)
            else
              (case (if is_sql s then db_neighbours d else Some []) of
                 None \<Rightarrow> (Inl NeighboursQuery, s)
               | Some rows \<Rightarrow>
                 (let relevant_tables = fold add_neighbour rows relevant_tables;
                      s' = s\<lparr>all_tables := relevant_tables\<rparr>
                  in if \<not> call progress_callback Expanded
                     then (Inl (CallbackRaised Expanded), s')
                     else (Inr relevant_tables, s'))))))"

text \<open>\<open>get_relevant_tables\<close>: the connection is opened before the \<open>try\<close>; the \<open>finally\<close>
  block closes it whether the block returned or raised.\<close>

definition get_relevant_tables :: "pylib \<Rightarrow> callback \<Rightarrow> db \<Rightarrow> mapper \<Rightarrow>
    (failure + string set) \<times> mapper" where
  "get_relevant_tables lib progress_callback d s =
     (if \<not> open_cursor s (db_connect1 d) then (Inl Connect1, s)
      else
        (case relevant_body lib progress_callback d s of
           (Inl f, s') \<Rightarrow> (Inl (if db_close1 d then f else Close1 (Some f)), s')
         | (Inr relevant_tables, s') \<Rightarrow>
             (if db_close1 d then (Inr relevant_tables, s') else (Inl (Close1 None), s'))))"

text \<open>What an append to the mapper's list under key \<open>k\<close> does to the index of the mapping
  cache: when the lists are shared and the cache has the key, the cache's list is that
  same list.\<close>

definition share_append :: "bool \<Rightarrow> string \<Rightarrow> 'v \<Rightarrow> 'v list dict jval \<Rightarrow> 'v list dict jval" where
  "share_append shared k v x =
     (case x of
        Value d \<Rightarrow> (if shared \<and> in_dict k d then Value (dict_append d k v) else Value d)
      | Absent \<Rightarrow> Absent
      | Malformed \<Rightarrow> Malformed)"

text \<open>One row of the foreign-key loop.\<close>

definition add_fk :: "string option \<times> string \<times> string option \<times> string \<Rightarrow> mapper \<Rightarrow> mapper" where
  "add_fk row s =
     (case row of (source_table, source_column, target_table, target_column) \<Rightarrow>
        (if truthy source_table \<and> truthy target_table then
           s\<lparr>relationships :=
                dict_append (relationships s) (the source_table)
                  (the target_table, source_column, target_column, PyTuple),
              reverse_relationships :=
                dict_append (reverse_relationships s) (the target_table)
                  (the source_table, target_column, source_column, PyTuple),
              mapping_cache := (mapping_cache s)\<lparr>
                mc_relationships :=
                  share_append (rel_shared s) (the source_table)
                    (the target_table, source_column, target_column, PyTuple)
                    (mc_relationships (mapping_cache s)),
                mc_reverse_relationships :=
                  share_append (rev_shared s) (the target_table)
                    (the source_table, target_column, source_column, PyTuple)
                    (mc_reverse_relationships (mapping_cache s))\<rparr>\<rparr>
         else s))"

text \<open>One row of the column loop. When the column catalog is the cache's dictionary, the
  cache sees the new entry.\<close>

definition add_column :: "string \<times> string \<times> string \<Rightarrow> mapper \<Rightarrow> mapper" where
  "add_column row s =
     (case row of (table_name, column_name, data_type) \<Rightarrow>
        (let columns = dict_append (table_columns s) table_name
                         \<lparr>col_name = column_name, col_type = data_type\<rparr>
         in s\<lparr>table_columns := columns,
              mapping_cache :=
                (if columns_shared s then (mapping_cache s)\<lparr>mc_table_columns := Some columns\<rparr>
                 else mapping_cache s)\<rparr>))"

text \<open>The complete mapping that \<open>map_focused_relationships\<close> runs when the cache was not
  loaded, from the callback "cache not available" to \<open>return True\<close>. A statement that
  raises leaves the mapper as the statements before it left it.\<close>

definition full_mapping :: "pylib \<Rightarrow> string \<Rightarrow> callback \<Rightarrow> db \<Rightarrow> mapper \<Rightarrow> (failure + bool) \<times> mapper" where
  "full_mapping lib now progress_callback d s1 =
     (if \<not> call progress_callback Start then (Inl (CallbackRaised Start), s1)
      else
        (case get_relevant_tables lib progress_callback d s1 of
           (Inl f, s2) \<Rightarrow> (Inl f, s2)
         | (Inr relevant_tables, s2) \<Rightarrow>
           (if relevant_tables = {} then
              (if call progress_callback NoTables then (Inr False, s2)
               else (Inl (CallbackRaised NoTables), s2))
            else if \<not> open_cursor s2 (db_connect2 d) then (Inl Connect2, s2)
            else if \<not> call progress_callback MapFks then (Inl (CallbackRaised MapFks), s2)
            else
              (case (if is_sql s2 then db_fks d else Some []) of
                 None \<Rightarrow> (Inl FkQuery, s2)
               | Some fk_rows \<Rightarrow>
                 (let s3 = fold add_fk fk_rows s2 in
                  if \<not> call progress_callback MapColumns then (Inl (CallbackRaised MapColumns), s3)
                  else
                    (case (if is_sql s3 then db_columns d else Some []) of
                       None \<Rightarrow> (Inl ColumnsQuery, s3)
                     | Some col_rows \<Rightarrow>
                       (let s4 = fold add_column col_rows s3 in
                        if \<not> db_close2 d then (Inl Close2, s4)
                        else if \<not> call progress_callback Saving then (Inl (CallbackRaised Saving), s4)
                        else
                          (let s5 = save_mapping_cache lib now s4 in
                           if \<not> call progress_callback Done then (Inl (CallbackRaised Done), s5)
                           else (Inr True, s5)))))))))"



section \<open>Path finder\<close>

definition fwd_label :: "string \<Rightarrow> string \<Rightarrow> string" where
  "fwd_label src_col tgt_col = ''--'' @ src_col @ ''-->'' @ tgt_col @ ''-->''"

definition rev_label :: "string \<Rightarrow> string \<Rightarrow> string" where
  "rev_label src_col tgt_col = ''<--'' @ tgt_col @ ''<--'' @ src_col @ ''--''"

text \<open>One \<open>for\<close> loop over the relations of the current table: a relation that reaches the
  target completes a path, any other is queued if its table is unvisited and the path
  is still shorter than \<open>max_depth\<close>.\<close>

fun expand :: "(string \<Rightarrow> string \<Rightarrow> string) \<Rightarrow> string \<Rightarrow> int \<Rightarrow> string set \<Rightarrow> path \<Rightarrow>
    rel list \<Rightarrow> qentry list \<times> path list \<Rightarrow> qentry list \<times> path list" where
  "expand lbl target_table max_depth visited path [] (queue, paths) = (queue, paths)"
| "expand lbl target_table max_depth visited path ((next_table, src_col, tgt_col, kind) # rs)
     (queue, paths) =
     (let new_path = path @ [lbl src_col tgt_col, next_table] in
      if next_table = target_table then
        expand lbl target_table max_depth visited path rs (queue, paths @ [new_path])
      else if next_table \<notin> visited \<and> int (length path) < max_depth then
        expand lbl target_table max_depth visited path rs (queue @ [(next_table, new_path)], paths)
      else expand lbl target_table max_depth visited path rs (queue, paths))"

text \<open>The two loops of one iteration: direct relations first, then reverse ones.\<close>

definition visit :: "rel list dict \<Rightarrow> rel list dict \<Rightarrow> string \<Rightarrow> int \<Rightarrow> string set \<Rightarrow>
    string \<Rightarrow> path \<Rightarrow> qentry list \<times> path list \<Rightarrow> qentry list \<times> path list" where
  "visit rels revs target_table max_depth visited current_table path qp =
     expand rev_label target_table max_depth visited path (dict_get revs current_table)
       (expand fwd_label target_table max_depth visited path (dict_get rels current_table) qp)"

text \<open>The \<open>while queue and len(paths) < 10\<close> loop.\<close>

function bfs :: "rel list dict \<Rightarrow> rel list dict \<Rightarrow> string \<Rightarrow> int \<Rightarrow>
    qentry list \<Rightarrow> string set \<Rightarrow> path list \<Rightarrow> path list" where
  "bfs rels revs target_table max_depth [] visited paths = paths"
| "bfs rels revs target_table max_depth ((current_table, path) # queue) visited paths =
     (if \<not> length paths < 10 then paths
      else if int (length path) > max_depth then
        bfs rels revs target_table max_depth queue visited paths
      else if current_table \<in> visited then
        bfs rels revs target_table max_depth queue visited paths
      else
        (let visited' = insert current_table visited;
             qp = visit rels revs target_table max_depth visited' current_table path (queue, paths)
         in bfs rels revs target_table max_depth (fst qp) visited' (snd qp)))"
  by pat_completeness auto

text \<open>The loop terminates: an iteration either drops a queue entry or visits a table for
  the first time, and only the finitely many tables of the graph and of the queue can be
  visited.\<close>

definition graph_tables :: "rel list dict \<Rightarrow> string set" where
  "graph_tables d = fst ` (\<Union>(k, rs) \<in> set d. set rs)"

definition unvisited :: "rel list dict \<Rightarrow> rel list dict \<Rightarrow> qentry list \<Rightarrow> string set \<Rightarrow> string set" where
  "unvisited rels revs queue visited =
     (graph_tables rels \<union> graph_tables revs \<union> fst ` set queue) - visited"

lemma expand_queue_tables:
  "fst ` set (fst (expand lbl t d vis p rs qp)) \<subseteq> fst ` set (fst qp) \<union> fst ` set rs"
proof (induction lbl t d vis p rs qp rule: expand.induct)
  case (1 lbl t d vis p queue paths)
  then show ?case by simp
next
  case (2 lbl t d vis p n c1 c2 k rs queue paths)
  then show ?case by (simp add: Let_def split: if_splits) blast
qed

lemma dict_get_tables: "fst ` set (dict_get d k) \<subseteq> graph_tables d"
proof
  fix x assume "x \<in> fst ` set (dict_get d k)"
  then obtain r where r: "r \<in> set (dict_get d k)" "x = fst r" by blast
  then obtain rs where "map_of d k = Some rs" "r \<in> set rs"
    by (cases "map_of d k") (simp_all add: dict_get_def)
  then have "(k, rs) \<in> set d" "r \<in> set rs" by (simp_all add: map_of_SomeD)
  then show "x \<in> graph_tables d" unfolding graph_tables_def using r(2) by blast
qed

lemma visit_queue_tables:
  "fst ` set (fst (visit rels revs t d vis c p qp))
     \<subseteq> fst ` set (fst qp) \<union> graph_tables rels \<union> graph_tables revs"
  unfolding visit_def
  using expand_queue_tables[of rev_label t d vis p "dict_get revs c"]
        expand_queue_tables[of fwd_label t d vis p "dict_get rels c" qp]
        dict_get_tables[of rels c] dict_get_tables[of revs c]
  by blast

lemma finite_graph_tables: "finite (graph_tables d)"
  unfolding graph_tables_def by (intro finite_imageI finite_UN_I) auto

lemma finite_unvisited: "finite (unvisited rels revs queue visited)"
  by (simp add: unvisited_def finite_graph_tables)

lemma unvisited_pop:
  "card (unvisited rels revs queue visited) \<le> card (unvisited rels revs (e # queue) visited)"
proof (rule card_mono)
  show "finite (unvisited rels revs (e # queue) visited)" by (rule finite_unvisited)
  show "unvisited rels revs queue visited \<subseteq> unvisited rels revs (e # queue) visited"
    unfolding unvisited_def by auto
qed

lemma unvisited_visit:
  assumes "c \<notin> visited"
  shows "card (unvisited rels revs (fst (visit rels revs t d (insert c visited) c p (queue, paths)))
            (insert c visited))
       < card (unvisited rels revs ((c, p) # queue) visited)"
proof (rule psubset_card_mono)
  show "finite (unvisited rels revs ((c, p) # queue) visited)" by (rule finite_unvisited)
  have cin: "c \<in> unvisited rels revs ((c, p) # queue) visited"
    using assms by (simp add: unvisited_def)
  have "fst ` set (fst (visit rels revs t d (insert c visited) c p (queue, paths)))
          \<subseteq> fst ` set queue \<union> graph_tables rels \<union> graph_tables revs"
    using visit_queue_tables[of rels revs t d "insert c visited" c p "(queue, paths)"] by simp
  then have "unvisited rels revs (fst (visit rels revs t d (insert c visited) c p (queue, paths)))
          (insert c visited)
        \<subseteq> unvisited rels revs ((c, p) # queue) visited - {c}"
    unfolding unvisited_def by auto
  then show "unvisited rels revs (fst (visit rels revs t d (insert c visited) c p (queue, paths)))
          (insert c visited)
        \<subset> unvisited rels revs ((c, p) # queue) visited"
    using cin by blast
qed

termination bfs
proof (relation "measures
    [\<lambda>(rels, revs, t, d, queue, visited, paths). card (unvisited rels revs queue visited),
     \<lambda>(rels, revs, t, d, queue, visited, paths). length queue]", goal_cases)
  case 1 show ?case by simp
next
  case (2 rels revs t d c p queue visited paths)
  show ?case using unvisited_pop[of rels revs queue visited "(c, p)"] by auto
next
  case (3 rels revs t d c p queue visited paths)
  show ?case using unvisited_pop[of rels revs queue visited "(c, p)"] by auto
next
  case (4 rels revs t d c p queue visited paths visited' qp)
  show ?case using unvisited_visit[of c visited rels revs t d p queue paths] 4 by simp
qed

declare bfs.simps [simp del]

text \<open>\<open>find_path\<close>: the scope check, the trivial path, the cache and, on a miss, the
  search, whose result is always written to the cache.\<close>

definition find_path :: "string \<Rightarrow> mapper \<Rightarrow> string \<Rightarrow> string \<Rightarrow> int \<Rightarrow> path list \<times> mapper" where
  "find_path now s source_table target_table max_depth =
     (if \<not> in_dict source_table (table_columns s) \<or> \<not> in_dict target_table (table_columns s)
      then ([], s)
      else if source_table = target_table then ([[source_table]], s)
      else
        (case get_from_cache s source_table target_table max_depth of
           Some cached_result \<Rightarrow> (ce_paths cached_result, s)
         | None \<Rightarrow>
           (let paths = bfs (relationships s) (reverse_relationships s) target_table max_depth
                          [(source_table, [source_table])] {} []
            in (paths, save_to_cache now s source_table target_table max_depth paths))))"

text \<open>The table names of a path: a path alternates table name and edge label, starting
  with a table name.\<close>

fun table_nodes :: "path \<Rightarrow> string list" where
  "table_nodes [] = []"
| "table_nodes [t] = [t]"
| "table_nodes (t # e # rest) = t # table_nodes rest"

section \<open>Properties of paths and of the path cache\<close>

text \<open>The bound the search gives on a path: a completed path is the expanded path
  (of at most \<open>max_depth\<close> list elements) plus one label and the target.\<close>

definition path_ok :: "int \<Rightarrow> path \<Rightarrow> bool" where
  "path_ok d p = (2 \<le> length p \<and> int (length p) \<le> d + 2)"

text \<open>The number of table names a path returned for depth \<open>d\<close> can have.\<close>

definition node_bound :: "int \<Rightarrow> int" where
  "node_bound d = (if 2 \<le> d then d else d + 1)"

text \<open>A queue entry during the search for target \<open>t\<close>: its table is not the target, and
  its path alternates, repeats no table and runs through visited tables up to its end.\<close>

definition entry_ok :: "string \<Rightarrow> string set \<Rightarrow> qentry \<Rightarrow> bool" where
  "entry_ok t vis e = (case e of (c, p) \<Rightarrow>
     c \<noteq> t \<and> odd (length p) \<and> distinct (table_nodes p) \<and> set (table_nodes p) \<subseteq> insert c vis)"

text \<open>A path cache whose stored paths repeat no table.\<close>

definition cache_distinct :: "cache_entry dict \<Rightarrow> bool" where
  "cache_distinct pc = (\<forall>e \<in> snd ` set pc. \<forall>p \<in> set (ce_paths e). distinct (table_nodes p))"

text \<open>A path cache as \<open>_save_to_cache\<close> fills it: every entry sits under the key of its
  own query and holds paths within the bound of its own depth.\<close>

definition cache_bounded :: "cache_entry dict \<Rightarrow> bool" where
  "cache_bounded pc = (\<forall>(k, e) \<in> set pc.
     k = get_cache_key (ce_source e) (ce_target e) (ce_max_depth e) \<and>
     (\<forall>p \<in> set (ce_paths e). path_ok (ce_max_depth e) p))"

text \<open>The number a string of decimal digits denotes.\<close>

definition digits_val :: "string \<Rightarrow> nat" where
  "digits_val s = foldl (\<lambda>a c. 10 * a + (of_char c - 48)) 0 s"

section \<open>Compatibility of the mapping cache\<close>

text \<open>The two values \<open>_load_from_mapping_cache\<close> compares with the request: the cached
  pattern set and the cached database fingerprint.\<close>

definition cached_patterns :: "mapper \<Rightarrow> string set" where
  "cached_patterns s = set (jdefault [] (mc_patterns (mapping_cache s)))"

definition cached_db :: "mapper \<Rightarrow> string" where
  "cached_db s = opt_default '''' (mc_db_info (mapping_cache s))"

definition cache_compatible :: "mapper \<Rightarrow> bool" where
  "cache_compatible s = (set (patterns s) \<subseteq> cached_patterns s \<and> cached_db s = db_info s)"

text \<open>A mapping cache none of whose keys holds a value of another shape than the program
  writes; every file \<open>_save_mapping_cache\<close> wrote is read back as such a cache, and so is
  a missing file.\<close>

definition cache_readable :: "mapper \<Rightarrow> bool" where
  "cache_readable s =
     (mc_patterns (mapping_cache s) \<noteq> Malformed \<and>
      mc_relationships (mapping_cache s) \<noteq> Malformed \<and>
      mc_reverse_relationships (mapping_cache s) \<noteq> Malformed \<and>
      mc_all_tables (mapping_cache s) \<noteq> Malformed)"

text \<open>A new mapper built with the constructor arguments of \<open>s\<close>, finding the two cache
  files as \<open>s\<close> left them.\<close>

definition reopen :: "pylib \<Rightarrow> mapper \<Rightarrow> mapper" where
  "reopen lib s =
     init lib (db_type s) (connection_params s) (patterns s) (cache_file s) (mapping_cache_file s)"

text \<open>A relation entry, and an index, after the way through the file: the same strings, as
  lists.\<close>

definition as_list :: "rel \<Rightarrow> rel" where
  "as_list r = (case r of (a, b, c, kind) \<Rightarrow> (a, b, c, PyList))"

definition listed :: "rel list dict \<Rightarrow> rel list dict" where
  "listed d = map (\<lambda>(k, v). (k, map as_list v)) d"

section \<open>The states of a mapping run\<close>

text \<open>The states a complete mapping goes through, written from the answers of the
  database: the table set discovered, then the mapper after the assignment of
  \<open>all_tables\<close>, after the foreign-key loop, after the column loop and after the cache file
  was written.\<close>

definition discovered :: "pylib \<Rightarrow> db \<Rightarrow> mapper \<Rightarrow> string set" where
  "discovered lib d s =
     fold add_neighbour (opt_default [] (if is_sql s then db_neighbours d else Some []))
       (set (filter (matches lib (patterns s)) (opt_default [] (db_tables d))))"

definition fk_rows :: "db \<Rightarrow> mapper \<Rightarrow> (string option \<times> string \<times> string option \<times> string) list" where
  "fk_rows d s = opt_default [] (if is_sql s then db_fks d else Some [])"

definition column_rows :: "db \<Rightarrow> mapper \<Rightarrow> (string \<times> string \<times> string) list" where
  "column_rows d s = opt_default [] (if is_sql s then db_columns d else Some [])"

definition after_discovery :: "pylib \<Rightarrow> db \<Rightarrow> mapper \<Rightarrow> mapper" where
  "after_discovery lib d s = s\<lparr>all_tables := discovered lib d s\<rparr>"

definition after_fks :: "pylib \<Rightarrow> db \<Rightarrow> mapper \<Rightarrow> mapper" where
  "after_fks lib d s = fold add_fk (fk_rows d s) (after_discovery lib d s)"

definition after_columns :: "pylib \<Rightarrow> db \<Rightarrow> mapper \<Rightarrow> mapper" where
  "after_columns lib d s = fold add_column (column_rows d s) (after_fks lib d s)"

definition after_save :: "pylib \<Rightarrow> string \<Rightarrow> db \<Rightarrow> mapper \<Rightarrow> mapper" where
  "after_save lib now d s = save_mapping_cache lib now (after_columns lib d s)"






section \<open>Example mappers\<close>




text \<open>Two tables, \<open>a\<close> with one foreign key to \<open>b\<close>.\<close>

definition ex1 :: mapper where
  "ex1 = \<lparr> db_type = ''sqlite'', connection_params = [(''database'', ''shop'')],
     patterns = [''user''],
     relationships = [(''a'', [(''b'', ''x'', ''y'', PyTuple)])],
     reverse_relationships = [(''b'', [(''a'', ''y'', ''x'', PyTuple)])],
     table_columns = [(''a'', []), (''b'', [])],
     all_tables = {''a'', ''b''},
     cache_file = None, path_cache = [],
     mapping_cache_file = None, mapping_cache = empty_mcache,
     columns_shared = False, rel_shared = False, rev_shared = False \<rparr>"

text \<open>Two tables, \<open>a\<close> with eleven foreign keys to \<open>b\<close>.\<close>

definition ex_wide :: mapper where
  "ex_wide = \<lparr> db_type = ''postgresql'', connection_params = [(''database'', ''shop'')],
     patterns = [''user''],
     relationships = [(''a'', map (\<lambda>c. (''b'', c, ''id'', PyTuple))
        [''c0'', ''c1'', ''c2'', ''c3'', ''c4'', ''c5'', ''c6'', ''c7'', ''c8'', ''c9'', ''c10''])],
     reverse_relationships = [(''b'', map (\<lambda>c. (''a'', ''id'', c, PyTuple))
        [''c0'', ''c1'', ''c2'', ''c3'', ''c4'', ''c5'', ''c6'', ''c7'', ''c8'', ''c9'', ''c10''])],
     table_columns = [(''a'', []), (''b'', [])],
     all_tables = {''a'', ''b''},
     cache_file = None, path_cache = [],
     mapping_cache_file = None, mapping_cache = empty_mcache,
     columns_shared = False, rel_shared = False, rev_shared = False \<rparr>"

text \<open>Four tables, two of them with the arrow character in their names; the only foreign
  key goes from the table named "a, arrow, b" to \<open>c\<close>.\<close>

definition ex_arrow :: mapper where
  "ex_arrow = \<lparr> db_type = ''sqlite'', connection_params = [(''database'', ''shop'')],
     patterns = [''user''],
     relationships = [(''a'' @ arrow @ ''b'', [(''c'', ''x'', ''y'', PyTuple)])],
     reverse_relationships = [(''c'', [(''a'' @ arrow @ ''b'', ''y'', ''x'', PyTuple)])],
     table_columns = [(''a'' @ arrow @ ''b'', []), (''c'', []), (''a'', []), (''b'' @ arrow @ ''c'', [])],
     all_tables = {''a'' @ arrow @ ''b'', ''c'', ''a'', ''b'' @ arrow @ ''c''},
     cache_file = None, path_cache = [],
     mapping_cache_file = None, mapping_cache = empty_mcache,
     columns_shared = False, rel_shared = False, rev_shared = False \<rparr>"








section \<open>Lemmas on the search\<close>

lemma length_table_nodes: "length (table_nodes p) = (length p + 1) div 2"
  by (induction p rule: table_nodes.induct) simp_all

lemma table_nodes_snoc: "odd (length p) \<Longrightarrow> table_nodes (p @ [l, x]) = table_nodes p @ [x]"
  by (induction p rule: table_nodes.induct) simp_all

lemma expand_path_ok:
  "int (length p) \<le> d \<Longrightarrow> \<forall>q \<in> set (snd qp). path_ok d q \<Longrightarrow>
   \<forall>q \<in> set (snd (expand lbl t d vis p rs qp)). path_ok d q"
proof (induction lbl t d vis p rs qp rule: expand.induct)
  case (1 lbl t d vis p queue paths)
  then show ?case by simp
next
  case (2 lbl t d vis p n c1 c2 k rs queue paths)
  then show ?case by (simp add: Let_def path_ok_def)
qed

lemma visit_path_ok:
  "int (length p) \<le> d \<Longrightarrow> \<forall>q \<in> set (snd qp). path_ok d q \<Longrightarrow>
   \<forall>q \<in> set (snd (visit rels revs t d vis c p qp)). path_ok d q"
  unfolding visit_def by (intro expand_path_ok)

lemma bfs_path_ok:
  "\<forall>q \<in> set paths. path_ok d q \<Longrightarrow>
   \<forall>q \<in> set (bfs rels revs t d queue vis paths). path_ok d q"
proof (induction rels revs t d queue vis paths rule: bfs.induct)
  case (1 rels revs t d vis paths)
  then show ?case by (simp add: bfs.simps)
next
  case (2 rels revs t d c p queue vis paths)
  show ?case
  proof (cases "length paths < 10")
    case False
    then show ?thesis using 2(4) by (simp add: bfs.simps)
  next
    case lt: True
    show ?thesis
    proof (cases "int (length p) > d")
      case True
      then show ?thesis using lt 2(1) 2(4) by (simp add: bfs.simps)
    next
      case nd: False
      show ?thesis
      proof (cases "c \<in> vis")
        case True
        then show ?thesis using lt nd 2(2) 2(4) by (simp add: bfs.simps)
      next
        case nv: False
        let ?qp = "visit rels revs t d (insert c vis) c p (queue, paths)"
        have len: "int (length p) \<le> d" using nd by simp
        have "\<forall>q \<in> set (snd ?qp). path_ok d q"
          using visit_path_ok[OF len, of "(queue, paths)"] 2(4) by simp
        then have "\<forall>q \<in> set (bfs rels revs t d (fst ?qp) (insert c vis) (snd ?qp)). path_ok d q"
          using 2(3)[OF _ _ _ refl refl] lt nd nv by simp
        then show ?thesis using lt nd nv by (simp add: bfs.simps Let_def)
      qed
    qed
  qed
qed

lemma path_ok_nodes:
  assumes "path_ok d p"
  shows "int (length p) \<le> d + 2 \<and> int (length (table_nodes p)) \<le> node_bound d"
proof -
  have l: "2 \<le> length p" "int (length p) \<le> d + 2" using assms by (simp_all add: path_ok_def)
  have "2 * ((length p + 1) div 2) \<le> length p + 1" by simp
  then have "2 * int ((length p + 1) div 2) \<le> int (length p) + 1" by linarith
  then have "2 * int (length (table_nodes p)) \<le> d + 3" using l(2) by (simp add: length_table_nodes)
  moreover have "0 \<le> d" using l by linarith
  ultimately have "int (length (table_nodes p)) \<le> node_bound d"
    unfolding node_bound_def by (cases "2 \<le> d") simp_all
  then show ?thesis using l(2) by simp
qed

lemma entry_ok_mono: "entry_ok t vis e \<Longrightarrow> entry_ok t (insert c vis) e"
  by (auto simp: entry_ok_def)

lemma expand_distinct:
  assumes "odd (length p)" "distinct (table_nodes p)" "set (table_nodes p) \<subseteq> vis" "t \<notin> vis"
    and "\<forall>e \<in> set (fst qp). entry_ok t vis e"
    and "\<forall>q \<in> set (snd qp). distinct (table_nodes q)"
  shows "(\<forall>e \<in> set (fst (expand lbl t d vis p rs qp)). entry_ok t vis e) \<and>
         (\<forall>q \<in> set (snd (expand lbl t d vis p rs qp)). distinct (table_nodes q))"
  using assms
proof (induction lbl t d vis p rs qp rule: expand.induct)
  case (1 lbl t d vis p queue paths)
  then show ?case by simp
next
  case (2 lbl t d vis p n c1 c2 k rs queue paths)
  let ?np = "p @ [lbl c1 c2, n]"
  have tn: "table_nodes ?np = table_nodes p @ [n]"
    using 2(4) by (rule table_nodes_snoc)
  have qs: "\<forall>e \<in> set queue. entry_ok t vis e" using 2(8) by simp
  have ps: "\<forall>q \<in> set paths. distinct (table_nodes q)" using 2(9) by simp
  show ?case
  proof (cases "n = t")
    case True
    have eq: "expand lbl t d vis p ((n, c1, c2, k) # rs) (queue, paths)
            = expand lbl t d vis p rs (queue, paths @ [?np])"
      using True by (simp add: Let_def)
    have "n \<notin> set (table_nodes p)" using True 2(6) 2(7) by blast
    then have dn: "distinct (table_nodes ?np)" using 2(5) by (simp only: tn distinct_append) simp
    have h1: "\<forall>e \<in> set (fst (queue, paths @ [?np])). entry_ok t vis e"
      using qs by simp
    have h2: "\<forall>q \<in> set (snd (queue, paths @ [?np])). distinct (table_nodes q)"
    proof
      fix q assume "q \<in> set (snd (queue, paths @ [?np]))"
      then have "q \<in> set paths \<or> q = ?np" by auto
      then show "distinct (table_nodes q)" using ps dn by blast
    qed
    show ?thesis unfolding eq by (rule 2(1)[OF refl True 2(4) 2(5) 2(6) 2(7) h1 h2])
  next
    case nt: False
    show ?thesis
    proof (cases "n \<notin> vis \<and> int (length p) < d")
      case True
      have eq: "expand lbl t d vis p ((n, c1, c2, k) # rs) (queue, paths)
              = expand lbl t d vis p rs (queue @ [(n, ?np)], paths)"
        using nt True by (simp add: Let_def)
      have "n \<notin> set (table_nodes p)" using True 2(6) by blast
      then have dn: "distinct (table_nodes ?np)" using 2(5) by (simp only: tn distinct_append) simp
      have "set (table_nodes ?np) \<subseteq> insert n vis" using 2(6) by (simp only: tn) auto
      moreover have "odd (length ?np)" using 2(4) by simp
      ultimately have ok: "entry_ok t vis (n, ?np)"
        using nt dn unfolding entry_ok_def by (simp only: prod.case) blast
      have h1: "\<forall>e \<in> set (fst (queue @ [(n, ?np)], paths)). entry_ok t vis e"
      proof
        fix e assume "e \<in> set (fst (queue @ [(n, ?np)], paths))"
        then have "e \<in> set queue \<or> e = (n, ?np)" by auto
        then show "entry_ok t vis e" using qs ok by blast
      qed
      have h2: "\<forall>q \<in> set (snd (queue @ [(n, ?np)], paths)). distinct (table_nodes q)"
        using ps by simp
      show ?thesis unfolding eq by (rule 2(2)[OF refl nt True 2(4) 2(5) 2(6) 2(7) h1 h2])
    next
      case False
      have eq: "expand lbl t d vis p ((n, c1, c2, k) # rs) (queue, paths)
              = expand lbl t d vis p rs (queue, paths)"
        using nt False by (cases "n \<in> vis") (simp_all add: Let_def)
      show ?thesis unfolding eq by (rule 2(3)[OF refl nt False 2(4) 2(5) 2(6) 2(7) 2(8) 2(9)])
    qed
  qed
qed

lemma visit_distinct:
  assumes "odd (length p)" "distinct (table_nodes p)" "set (table_nodes p) \<subseteq> vis" "t \<notin> vis"
    and "\<forall>e \<in> set (fst qp). entry_ok t vis e"
    and "\<forall>q \<in> set (snd qp). distinct (table_nodes q)"
  shows "(\<forall>e \<in> set (fst (visit rels revs t d vis c p qp)). entry_ok t vis e) \<and>
         (\<forall>q \<in> set (snd (visit rels revs t d vis c p qp)). distinct (table_nodes q))"
proof -
  let ?qp1 = "expand fwd_label t d vis p (dict_get rels c) qp"
  have 1: "(\<forall>e \<in> set (fst ?qp1). entry_ok t vis e) \<and> (\<forall>q \<in> set (snd ?qp1). distinct (table_nodes q))"
    using assms by (rule expand_distinct)
  show ?thesis unfolding visit_def
    using expand_distinct[OF assms(1-4) conjunct1[OF 1] conjunct2[OF 1]] by simp
qed

lemma bfs_distinct:
  assumes "t \<notin> vis" "\<forall>e \<in> set queue. entry_ok t vis e" "\<forall>q \<in> set paths. distinct (table_nodes q)"
  shows "\<forall>q \<in> set (bfs rels revs t d queue vis paths). distinct (table_nodes q)"
  using assms
proof (induction rels revs t d queue vis paths rule: bfs.induct)
  case (1 rels revs t d vis paths)
  then show ?case by (simp add: bfs.simps)
next
  case (2 rels revs t d c p queue vis paths)
  have q: "\<forall>e \<in> set queue. entry_ok t vis e" using 2(5) by simp
  have e: "entry_ok t vis (c, p)" using 2(5) by simp
  show ?case
  proof (cases "length paths < 10")
    case False
    then show ?thesis using 2(6) by (simp add: bfs.simps)
  next
    case lt: True
    show ?thesis
    proof (cases "int (length p) > d")
      case True
      then show ?thesis using lt 2(1)[OF _ _ 2(4) q 2(6)] by (simp add: bfs.simps)
    next
      case nd: False
      show ?thesis
      proof (cases "c \<in> vis")
        case True
        then show ?thesis using lt nd 2(2)[OF _ _ _ 2(4) q 2(6)] by (simp add: bfs.simps)
      next
        case nv: False
        let ?vis = "insert c vis"
        let ?qp = "visit rels revs t d ?vis c p (queue, paths)"
        have ct: "c \<noteq> t" and op: "odd (length p)" and dp: "distinct (table_nodes p)"
          and sp: "set (table_nodes p) \<subseteq> ?vis"
          using e by (simp_all add: entry_ok_def)
        have tv: "t \<notin> ?vis" using 2(4) ct by simp
        have q': "\<forall>e \<in> set (fst (queue, paths)). entry_ok t ?vis e"
          using q entry_ok_mono by simp
        have p': "\<forall>q \<in> set (snd (queue, paths)). distinct (table_nodes q)"
          using 2(6) by simp
        have v: "(\<forall>e \<in> set (fst ?qp). entry_ok t ?vis e) \<and> (\<forall>q \<in> set (snd ?qp). distinct (table_nodes q))"
          using op dp sp tv q' p' by (rule visit_distinct)
        have "\<forall>q \<in> set (bfs rels revs t d (fst ?qp) ?vis (snd ?qp)). distinct (table_nodes q)"
          using 2(3)[OF _ _ _ refl refl tv conjunct1[OF v] conjunct2[OF v]] lt nd nv by simp
        then show ?thesis using lt nd nv by (simp add: bfs.simps Let_def)
      qed
    qed
  qed
qed

lemma set_update_subset: "set (AList.update k v al) \<subseteq> insert (k, v) (set al)"
  by (induction al) auto

lemma cache_distinct_update:
  assumes "cache_distinct pc" "\<forall>p \<in> set (ce_paths e). distinct (table_nodes p)"
  shows "cache_distinct (AList.update k e pc)"
proof -
  have "snd ` set (AList.update k e pc) \<subseteq> insert e (snd ` set pc)"
    using set_update_subset[of k e pc] by force
  then show ?thesis using assms unfolding cache_distinct_def by blast
qed

lemma bfs_initial_distinct:
  assumes "A \<noteq> B"
  shows "\<forall>q \<in> set (bfs rels revs B d [(A, [A])] {} []). distinct (table_nodes q)"
proof (rule bfs_distinct)
  show "B \<notin> {}" by simp
  show "\<forall>e \<in> set [(A, [A])]. entry_ok B {} e" using assms by (simp add: entry_ok_def)
  show "\<forall>q \<in> set []. distinct (table_nodes q)" by simp
qed

lemma cache_bounded_update:
  assumes "cache_bounded pc" "\<forall>p \<in> set paths. path_ok d p"
  shows "cache_bounded (AList.update (get_cache_key A B d)
     \<lparr> ce_paths = paths, ce_timestamp = now, ce_source = A, ce_target = B, ce_max_depth = d \<rparr> pc)"
proof -
  let ?e = "\<lparr> ce_paths = paths, ce_timestamp = now, ce_source = A, ce_target = B, ce_max_depth = d \<rparr>"
  have sub: "set (AList.update (get_cache_key A B d) ?e pc) \<subseteq> insert (get_cache_key A B d, ?e) (set pc)"
    by (rule set_update_subset)
  show ?thesis unfolding cache_bounded_def
  proof (intro ballI)
    fix x assume "x \<in> set (AList.update (get_cache_key A B d) ?e pc)"
    then have "x = (get_cache_key A B d, ?e) \<or> x \<in> set pc" using sub by blast
    then show "case x of (k, e) \<Rightarrow>
        k = get_cache_key (ce_source e) (ce_target e) (ce_max_depth e) \<and>
        (\<forall>p \<in> set (ce_paths e). path_ok (ce_max_depth e) p)"
    proof
      assume "x = (get_cache_key A B d, ?e)"
      then show ?thesis using assms(2) by simp
    next
      assume "x \<in> set pc"
      then show ?thesis using assms(1) unfolding cache_bounded_def by blast
    qed
  qed
qed

section \<open>Lemmas on the cache key\<close>

lemma digit_code: "k < 10 \<Longrightarrow> of_char (char_of (48 + k :: nat)) = (48 + k :: nat)"
  by (simp add: of_char_of)

lemma str_nat_chars: "c \<in> set (str_nat n) \<Longrightarrow> 48 \<le> (of_char c :: nat) \<and> (of_char c :: nat) < 58"
proof (induction n rule: str_nat.induct)
  case (1 n)
  show ?case
  proof (cases "n < 10")
    case True
    then have "c = char_of (48 + n)" using 1(2) by (simp add: str_nat.simps[of n])
    then show ?thesis using digit_code[OF True] True by simp
  next
    case False
    then have "c \<in> set (str_nat (n div 10)) \<or> c = char_of (48 + n mod 10)"
      using 1(2) by (auto simp add: str_nat.simps[of n])
    then show ?thesis
    proof
      assume "c \<in> set (str_nat (n div 10))"
      then show ?thesis using 1(1)[OF False] by simp
    next
      assume c: "c = char_of (48 + n mod 10)"
      have "n mod 10 < 10" by simp
      then show ?thesis using digit_code[of "n mod 10"] c by simp
    qed
  qed
qed

lemma str_nat_nonempty: "str_nat n \<noteq> []"
  by (subst str_nat.simps) simp

lemma digits_val_str_nat: "digits_val (str_nat n) = n"
proof (induction n rule: str_nat.induct)
  case (1 n)
  show ?case
  proof (cases "n < 10")
    case True
    then show ?thesis using digit_code[OF True] by (simp add: str_nat.simps[of n] digits_val_def)
  next
    case False
    have "digits_val (str_nat n) = 10 * digits_val (str_nat (n div 10)) + (of_char (char_of (48 + n mod 10)) - 48)"
      using False by (simp add: str_nat.simps[of n] digits_val_def)
    also have "\<dots> = 10 * (n div 10) + n mod 10"
      using 1[OF False] digit_code[of "n mod 10"] by simp
    finally show ?thesis by simp
  qed
qed

lemma str_nat_inj: "str_nat m = str_nat n \<Longrightarrow> m = n"
  using digits_val_str_nat by metis

lemma str_int_inj: "str_int i = str_int j \<Longrightarrow> i = j"
proof -
  assume eq: "str_int i = str_int j"
  have nd: "\<And>n. hd (str_nat n) \<noteq> CHR ''-''"
  proof -
    fix n
    have "hd (str_nat n) \<in> set (str_nat n)" using str_nat_nonempty by simp
    then have "48 \<le> (of_char (hd (str_nat n)) :: nat)" using str_nat_chars by blast
    then show "hd (str_nat n) \<noteq> CHR ''-''" by auto
  qed
  show "i = j"
  proof (cases "i < 0")
    case ni: True
    show ?thesis
    proof (cases "j < 0")
      case True
      then have "str_nat (nat (- i)) = str_nat (nat (- j))" using eq ni by (simp add: str_int_def)
      then have "nat (- i) = nat (- j)" by (rule str_nat_inj)
      then show ?thesis using ni True by simp
    next
      case False
      then have "CHR ''-'' # str_nat (nat (- i)) = str_nat (nat j)" using eq ni by (simp add: str_int_def)
      then have "hd (str_nat (nat j)) = CHR ''-''" by (metis list.sel(1))
      then show ?thesis using nd by blast
    qed
  next
    case pi: False
    show ?thesis
    proof (cases "j < 0")
      case True
      then have "str_nat (nat i) = CHR ''-'' # str_nat (nat (- j))" using eq pi by (simp add: str_int_def)
      then have "hd (str_nat (nat i)) = CHR ''-''" by (metis list.sel(1))
      then show ?thesis using nd by blast
    next
      case False
      then have "str_nat (nat i) = str_nat (nat j)" using eq pi by (simp add: str_int_def)
      then have "nat i = nat j" by (rule str_nat_inj)
      then show ?thesis using pi False by simp
    qed
  qed
qed

lemma str_int_no_colon: "CHR '':'' \<notin> set (str_int i)"
proof
  assume "CHR '':'' \<in> set (str_int i)"
  then have "CHR '':'' \<in> set (str_nat (nat (- i))) \<or> CHR '':'' \<in> set (str_nat (nat i))"
    by (auto simp: str_int_def split: if_splits)
  then have "(of_char (CHR '':'') :: nat) < 58" using str_nat_chars by blast
  then show False by simp
qed

lemma takeWhile_upto: "x \<notin> set xs \<Longrightarrow> takeWhile (\<lambda>c. c \<noteq> x) (xs @ x # ys) = xs"
  by (induction xs) auto

lemma after_last_colon:
  assumes "CHR '':'' \<notin> set u" "CHR '':'' \<notin> set v" "x @ CHR '':'' # u = y @ CHR '':'' # v"
  shows "u = v"
proof -
  have "rev u @ CHR '':'' # rev x = rev v @ CHR '':'' # rev y"
    using arg_cong[OF assms(3), of rev] by simp
  then have "takeWhile (\<lambda>c. c \<noteq> CHR '':'') (rev u @ CHR '':'' # rev x)
           = takeWhile (\<lambda>c. c \<noteq> CHR '':'') (rev v @ CHR '':'' # rev y)" by simp
  moreover have "takeWhile (\<lambda>c. c \<noteq> CHR '':'') (rev u @ CHR '':'' # rev x) = rev u"
    using assms(1) by (simp add: takeWhile_upto)
  moreover have "takeWhile (\<lambda>c. c \<noteq> CHR '':'') (rev v @ CHR '':'' # rev y) = rev v"
    using assms(2) by (simp add: takeWhile_upto)
  ultimately show ?thesis by simp
qed

lemma cache_key_depth: "get_cache_key s t d = get_cache_key s' t' d' \<Longrightarrow> d = d'"
proof -
  assume "get_cache_key s t d = get_cache_key s' t' d'"
  then have "(s @ arrow @ t) @ CHR '':'' # str_int d = (s' @ arrow @ t') @ CHR '':'' # str_int d'"
    by (simp add: get_cache_key_def)
  then have "str_int d = str_int d'"
    using after_last_colon[OF str_int_no_colon str_int_no_colon] by blast
  then show ?thesis by (rule str_int_inj)
qed

section \<open>Lemmas on the mapping cache and the mapping run\<close>



lemma load_incompatible: "\<not> cache_compatible s \<Longrightarrow> load_from_mapping_cache s = (False, s)"
  by (simp add: load_from_mapping_cache_def cache_compatible_def cached_patterns_def
      cached_db_def Let_def)


lemma load_fst_compatible: "fst (load_from_mapping_cache s) \<Longrightarrow> cache_compatible s"
  using load_incompatible[of s] by (cases "cache_compatible s") simp_all











lemma relevant_body_Inr:
  assumes "relevant_body lib cb d s = (Inr r, s')"
  shows "r = discovered lib d s \<and> s' = after_discovery lib d s \<and>
         db_tables d \<noteq> None \<and> (is_sql s \<longrightarrow> db_neighbours d \<noteq> None)"
proof (cases "call cb Search")
  case False
  then show ?thesis using assms by (auto simp add: relevant_body_def)
next
  case cs: True
  show ?thesis
  proof (cases "db_tables d")
    case None
    then show ?thesis using assms cs by (auto simp add: relevant_body_def)
  next
    case (Some tables)
    show ?thesis
    proof (cases "call cb Found")
      case False
      then show ?thesis using assms cs Some by (auto simp add: relevant_body_def)
    next
      case cf: True
      show ?thesis
      proof (cases "if is_sql s then db_neighbours d else Some []")
        case None
        then show ?thesis using assms cs Some cf by (auto simp add: relevant_body_def)
      next
        case rows: (Some rows)
        have disc: "discovered lib d s = fold add_neighbour rows (set (filter (matches lib (patterns s)) tables))"
          using Some rows by (simp add: discovered_def opt_default_def)
        have "relevant_body lib cb d s =
            (if \<not> call cb Expanded then (Inl (CallbackRaised Expanded), after_discovery lib d s)
             else (Inr (discovered lib d s), after_discovery lib d s))"
          using cs Some cf rows by (simp add: relevant_body_def Let_def disc after_discovery_def)
        then show ?thesis using assms Some rows by (auto split: if_splits)
      qed
    qed
  qed
qed



lemma get_relevant_Inr:
  assumes "get_relevant_tables lib cb d s = (Inr r, s')"
  shows "r = discovered lib d s \<and> s' = after_discovery lib d s"
proof (cases "open_cursor s (db_connect1 d)")
  case False
  then show ?thesis using assms by (auto simp add: get_relevant_tables_def)
next
  case oc: True
  obtain res s2 where rb: "relevant_body lib cb d s = (res, s2)" by (cases "relevant_body lib cb d s")
  show ?thesis
  proof (cases res)
    case (Inl g)
    then show ?thesis using assms oc rb by (auto simp add: get_relevant_tables_def split: if_splits)
  next
    case (Inr r2)
    then have g: "r2 = discovered lib d s \<and> s2 = after_discovery lib d s"
      using rb relevant_body_Inr by blast
    have "s' = s2 \<and> r = r2"
      using assms oc rb Inr by (auto simp add: get_relevant_tables_def split: if_splits)
    then show ?thesis using g by auto
  qed
qed


lemma add_fk_frame:
  "table_columns (add_fk row s) = table_columns s \<and> all_tables (add_fk row s) = all_tables s \<and>
   db_type (add_fk row s) = db_type s \<and> columns_shared (add_fk row s) = columns_shared s \<and>
   rel_shared (add_fk row s) = rel_shared s \<and> rev_shared (add_fk row s) = rev_shared s"
  by (cases row) (simp add: add_fk_def)

lemma fold_add_fk_frame:
  "table_columns (fold add_fk rows s) = table_columns s \<and>
   all_tables (fold add_fk rows s) = all_tables s \<and>
   db_type (fold add_fk rows s) = db_type s"
  by (induction rows arbitrary: s) (simp_all add: add_fk_frame)



lemma is_sql_after_discovery: "is_sql (after_discovery lib d s) = is_sql s"
  by (simp add: is_sql_def after_discovery_def)

lemma is_sql_fold_add_fk: "is_sql (fold add_fk rows s) = is_sql s"
  by (simp add: is_sql_def fold_add_fk_frame)

lemma open_cursor_after_discovery: "open_cursor (after_discovery lib d s) ok = open_cursor s ok"
  by (simp add: open_cursor_def after_discovery_def)

text \<open>The complete mapping once discovery has returned, as one chain of tests.\<close>

lemma full_mapping_chain:
  assumes "call cb Start" "get_relevant_tables lib cb d s1 = (Inr r, s2)"
  shows "full_mapping lib now cb d s1 =
    (if discovered lib d s1 = {} then
       (if call cb NoTables then (Inr False, after_discovery lib d s1)
        else (Inl (CallbackRaised NoTables), after_discovery lib d s1))
     else if \<not> open_cursor s1 (db_connect2 d) then (Inl Connect2, after_discovery lib d s1)
     else if \<not> call cb MapFks then (Inl (CallbackRaised MapFks), after_discovery lib d s1)
     else if is_sql s1 \<and> db_fks d = None then (Inl FkQuery, after_discovery lib d s1)
     else if \<not> call cb MapColumns then (Inl (CallbackRaised MapColumns), after_fks lib d s1)
     else if is_sql s1 \<and> db_columns d = None then (Inl ColumnsQuery, after_fks lib d s1)
     else if \<not> db_close2 d then (Inl Close2, after_columns lib d s1)
     else if \<not> call cb Saving then (Inl (CallbackRaised Saving), after_columns lib d s1)
     else if \<not> call cb Done then (Inl (CallbackRaised Done), after_save lib now d s1)
     else (Inr True, after_save lib now d s1))"
proof -
  have rs: "r = discovered lib d s1" "s2 = after_discovery lib d s1"
    using get_relevant_Inr[OF assms(2)] by simp_all
  let ?s2 = "after_discovery lib d s1"
  have sql2: "is_sql ?s2 = is_sql s1" by (rule is_sql_after_discovery)
  have oc2: "open_cursor ?s2 (db_connect2 d) = open_cursor s1 (db_connect2 d)"
    by (rule open_cursor_after_discovery)
  show ?thesis
  proof (cases "is_sql s1 \<and> db_fks d = None")
    case True
    then have "(if is_sql ?s2 then db_fks d else Some []) = None" using sql2 by simp
    then show ?thesis
      using assms(1) rs oc2 True unfolding full_mapping_def assms(2) by simp
  next
    case fk: False
    then have fkq: "(if is_sql ?s2 then db_fks d else Some []) = Some (fk_rows d s1)"
      using sql2 by (auto simp add: fk_rows_def opt_default_def)
    let ?s3 = "fold add_fk (fk_rows d s1) ?s2"
    have s3: "?s3 = after_fks lib d s1" by (simp add: after_fks_def)
    have sql3: "is_sql ?s3 = is_sql s1" using is_sql_fold_add_fk sql2 by simp
    show ?thesis
    proof (cases "is_sql s1 \<and> db_columns d = None")
      case True
      then have "(if is_sql (after_fks lib d s1) then db_columns d else Some []) = None" using sql3 s3 by simp
      then show ?thesis
        using assms(1) rs oc2 fk fkq True unfolding full_mapping_def assms(2) by (auto simp add: Let_def s3)
    next
      case col: False
      then have colq: "(if is_sql (after_fks lib d s1) then db_columns d else Some []) = Some (column_rows d s1)"
        using sql3 s3 by (auto simp add: column_rows_def opt_default_def)
      have s4: "fold add_column (column_rows d s1) (after_fks lib d s1) = after_columns lib d s1"
        by (simp add: after_columns_def)
      have s5: "save_mapping_cache lib now (after_columns lib d s1) = after_save lib now d s1"
        by (simp add: after_save_def)
      show ?thesis
        using assms(1) rs oc2 fk fkq colq col unfolding full_mapping_def assms(2)
        by (auto simp add: Let_def s3 s4 s5)
    qed
  qed
qed

lemma full_mapping_start: "\<not> call cb Start \<Longrightarrow> full_mapping lib now cb d s1 = (Inl (CallbackRaised Start), s1)"
  by (simp add: full_mapping_def)

lemma full_mapping_discovery_failed:
  "call cb Start \<Longrightarrow> get_relevant_tables lib cb d s1 = (Inl f, s2) \<Longrightarrow>
   full_mapping lib now cb d s1 = (Inl f, s2)"
  by (simp add: full_mapping_def)



lemma full_True:
  assumes "full_mapping lib now cb d s1 = (Inr True, s')"
  shows "s' = after_save lib now d s1"
proof (cases "call cb Start")
  case False
  then show ?thesis using assms full_mapping_start[OF False, of lib now d s1] by auto
next
  case st: True
  obtain res s2 where g: "get_relevant_tables lib cb d s1 = (res, s2)"
    by (cases "get_relevant_tables lib cb d s1")
  show ?thesis
  proof (cases res)
    case (Inl g')
    then show ?thesis
      using assms full_mapping_discovery_failed[OF st, of lib d s1 g' s2] g by simp
  next
    case (Inr r)
    show ?thesis
      using assms unfolding full_mapping_chain[OF st g[unfolded Inr]]
      by (auto split: if_splits)
  qed
qed
















lemma from_to_json: "from_json (to_json r) = as_list r"
  by (cases r) (simp add: from_json_def to_json_def as_list_def)

lemma through_file:
  "map (\<lambda>(k, v). (k, map from_json v)) (map (\<lambda>(k, v). (k, map to_json v)) al) = listed al"
  by (induction al) (auto simp add: listed_def from_to_json)


lemma reopen_cache:
  "mapping_cache (reopen lib (save_mapping_cache lib now s)) =
     \<lparr> mc_patterns = Value (sort (patterns s)),
       mc_db_info = Some (db_info s),
       mc_timestamp = Some now,
       mc_table_columns = Some (table_columns s),
       mc_relationships = Value (listed (relationships s)),
       mc_reverse_relationships = Value (listed (reverse_relationships s)),
       mc_all_tables = Value (list_of_set lib (all_tables s)),
       mc_total_tables = Some (length (table_columns s)),
       mc_total_fks = Some (sum_list (map (\<lambda>(k, v). length v) (relationships s))) \<rparr>"
  by (simp add: reopen_def init_def save_mapping_cache_def load_mapping_cache_def through_file del: map_map)



text \<open>The caches the program meets are readable: the one read from a file that
  \<open>_save_mapping_cache\<close> wrote, and the empty one of a missing file.\<close>

lemma readable_written: "cache_readable (reopen lib (save_mapping_cache lib now s))"
  by (simp add: cache_readable_def reopen_cache)

lemma readable_no_file: "cache_readable (init lib dbt params pats pf None)"
  by (simp add: cache_readable_def init_def load_mapping_cache_def empty_mcache_def)

section \<open>The claims on the path finder\<close>

text \<open>
  C1, as amended. The claim: every path returned by \<open>find_path(A, B, d)\<close>, \<open>d \<ge> 0\<close>, has
  at most \<open>d\<close> table names. The search compares \<open>max_depth\<close> with the length of the path
  list, which counts the edge labels too, and accepts a relation that reaches the target
  without a depth check; the trivial path of \<open>A = B\<close> is returned before any check. So a
  returned path has at most \<open>d + 2\<close> list elements, hence at most \<open>d\<close> table names when
  \<open>d \<ge> 2\<close> and at most \<open>d + 1\<close> when \<open>d\<close> is 0 or 1. This holds for every mapper whose path
  cache was filled by \<open>find_path\<close>, and \<open>find_path\<close> keeps the cache that way.
\<close>

theorem find_path_depth_bound:
  assumes "0 \<le> d" "cache_bounded (path_cache s)"
  shows "(\<forall>p \<in> set (fst (find_path now s A B d)).
            int (length p) \<le> d + 2 \<and> int (length (table_nodes p)) \<le> node_bound d) \<and>
         cache_bounded (path_cache (snd (find_path now s A B d)))"
proof (cases "\<not> in_dict A (table_columns s) \<or> \<not> in_dict B (table_columns s)")
  case True
  then have "find_path now s A B d = ([], s)" by (simp add: find_path_def)
  then show ?thesis using assms by simp
next
  case scope: False
  show ?thesis
  proof (cases "A = B")
    case True
    then have "find_path now s A B d = ([[A]], s)" using scope by (simp add: find_path_def)
    then show ?thesis using assms by (simp add: node_bound_def)
  next
    case ne: False
    show ?thesis
    proof (cases "get_from_cache s A B d")
      case (Some e)
      then have fp: "find_path now s A B d = (ce_paths e, s)"
        using scope ne by (simp add: find_path_def)
      have "(get_cache_key A B d, e) \<in> set (path_cache s)"
        using Some unfolding get_from_cache_def by (rule map_of_SomeD)
      then have k: "get_cache_key A B d = get_cache_key (ce_source e) (ce_target e) (ce_max_depth e)"
        and b: "\<forall>p \<in> set (ce_paths e). path_ok (ce_max_depth e) p"
        using assms(2) unfolding cache_bounded_def by auto
      have "ce_max_depth e = d" using cache_key_depth[OF k] by simp
      then have "\<forall>p \<in> set (ce_paths e). path_ok d p" using b by simp
      then show ?thesis using fp assms(2) path_ok_nodes by simp
    next
      case None
      let ?paths = "bfs (relationships s) (reverse_relationships s) B d [(A, [A])] {} []"
      have fp: "find_path now s A B d = (?paths, save_to_cache now s A B d ?paths)"
        using scope ne None by (simp add: find_path_def Let_def)
      have ok: "\<forall>q \<in> set ?paths. path_ok d q"
        by (rule bfs_path_ok) simp
      have "cache_bounded (path_cache (save_to_cache now s A B d ?paths))"
        unfolding save_to_cache_def save_cache_def using cache_bounded_update[OF assms(2) ok]
        by simp
      then show ?thesis using fp ok path_ok_nodes by simp
    qed
  qed
qed

theorem find_path_depth_bound_witness:
  "(0::int) \<le> 5 \<and> cache_bounded (path_cache ex1) \<and>
   fst (find_path ''t'' ex1 ''a'' ''b'' 5) = [[''a'', ''--x-->y-->'', ''b'']] \<and>
   int (length (table_nodes [''a'', ''--x-->y-->'', ''b''])) \<le> node_bound 5"
proof -
  have h: "cache_bounded (path_cache ex1)" by (simp add: ex1_def cache_bounded_def)
  have v: "fst (find_path ''t'' ex1 ''a'' ''b'' 5) = [[''a'', ''--x-->y-->'', ''b'']]" by code_simp
  show ?thesis using find_path_depth_bound[OF _ h, of 5 "''t''" "''a''" "''b''"] h v by simp
qed

text \<open>The claim as stated fails at depth 1: the direct neighbour is returned, a path of
  two table names.\<close>

theorem find_path_depth_counterexample:
  "in_dict ''a'' (table_columns ex1) \<and> in_dict ''b'' (table_columns ex1) \<and>
   fst (find_path ''t'' ex1 ''a'' ''b'' 1) = [[''a'', ''--x-->y-->'', ''b'']] \<and>
   \<not> int (length (table_nodes [''a'', ''--x-->y-->'', ''b''])) \<le> 1"
  by code_simp

text \<open>
  C2. The claim: \<open>find_path\<close> returns at most 10 paths. The cap \<open>len(paths) < 10\<close> is only
  tested between two dequeues; the two loops over the relations of one table append
  every relation that reaches the target. With eleven foreign keys from \<open>a\<close> to \<open>b\<close> the
  search returns eleven paths.
\<close>

theorem find_path_more_than_ten:
  "in_dict ''a'' (table_columns ex_wide) \<and> in_dict ''b'' (table_columns ex_wide) \<and>
   length (fst (find_path ''t'' ex_wide ''a'' ''b'' 5)) = 11"
  by code_simp

theorem find_path_more_than_ten_witness:
  "\<not> length (fst (find_path ''t'' ex_wide ''a'' ''b'' 5)) \<le> 10"
  using find_path_more_than_ten by simp

text \<open>
  C3, as amended. The claim: a second call \<open>find_path(A, B, d)\<close> returns the result of the
  first without any traversal, whatever happened to the graph in between. The scope
  check on the column catalog comes before the cache lookup, so this holds when \<open>A\<close> and
  \<open>B\<close> are both in the column catalog at the second call exactly if they were at the
  first; the foreign-key indexes and the table set may have changed at will. The second
  call returns the result of the first and leaves the mapper as it found it.
\<close>

theorem find_path_cached_twice:
  assumes "path_cache s' = path_cache (snd (find_path now s A B d))"
    and "(in_dict A (table_columns s') \<and> in_dict B (table_columns s')) =
         (in_dict A (table_columns s) \<and> in_dict B (table_columns s))"
  shows "find_path now' s' A B d = (fst (find_path now s A B d), s')"
proof (cases "\<not> in_dict A (table_columns s) \<or> \<not> in_dict B (table_columns s)")
  case True
  then have "find_path now s A B d = ([], s)" by (simp add: find_path_def)
  moreover have "\<not> in_dict A (table_columns s') \<or> \<not> in_dict B (table_columns s')"
    using True assms(2) by blast
  then have "find_path now' s' A B d = ([], s')" by (simp add: find_path_def)
  ultimately show ?thesis by simp
next
  case scope: False
  then have scope': "\<not> (\<not> in_dict A (table_columns s') \<or> \<not> in_dict B (table_columns s'))"
    using assms(2) by simp
  show ?thesis
  proof (cases "A = B")
    case True
    then show ?thesis using scope scope' by (simp add: find_path_def)
  next
    case ne: False
    show ?thesis
    proof (cases "get_from_cache s A B d")
      case (Some e)
      then have fp: "find_path now s A B d = (ce_paths e, s)"
        using scope ne by (simp add: find_path_def)
      then have "get_from_cache s' A B d = Some e"
        using assms(1) Some by (simp add: get_from_cache_def)
      then have "find_path now' s' A B d = (ce_paths e, s')"
        using scope' ne by (simp add: find_path_def)
      then show ?thesis using fp by simp
    next
      case None
      let ?paths = "bfs (relationships s) (reverse_relationships s) B d [(A, [A])] {} []"
      let ?e = "\<lparr> ce_paths = ?paths, ce_timestamp = now, ce_source = A, ce_target = B, ce_max_depth = d \<rparr>"
      have fp: "find_path now s A B d = (?paths, save_to_cache now s A B d ?paths)"
        using scope ne None by (simp add: find_path_def Let_def)
      have "path_cache s' = AList.update (get_cache_key A B d) ?e (path_cache s)"
        using assms(1) fp by (simp add: save_to_cache_def save_cache_def)
      then have "get_from_cache s' A B d = Some ?e"
        by (simp add: get_from_cache_def update_conv')
      then have "find_path now' s' A B d = (?paths, s')"
        using scope' ne by (simp add: find_path_def)
      then show ?thesis using fp by simp
    qed
  qed
qed

theorem find_path_cached_twice_witness:
  "find_path ''u'' ((snd (find_path ''t'' ex1 ''a'' ''b'' 5))\<lparr>relationships := [], reverse_relationships := []\<rparr>) ''a'' ''b'' 5
     = ([[''a'', ''--x-->y-->'', ''b'']],
        (snd (find_path ''t'' ex1 ''a'' ''b'' 5))\<lparr>relationships := [], reverse_relationships := []\<rparr>)"
proof -
  let ?s1 = "snd (find_path ''t'' ex1 ''a'' ''b'' 5)"
  let ?s' = "?s1\<lparr>relationships := [], reverse_relationships := []\<rparr>"
  have h1: "path_cache ?s' = path_cache ?s1" by simp
  have tc: "table_columns ?s' = table_columns ex1"
    by (simp add: find_path_def save_to_cache_def save_cache_def Let_def split: option.split)
  have h2: "(in_dict ''a'' (table_columns ?s') \<and> in_dict ''b'' (table_columns ?s')) =
            (in_dict ''a'' (table_columns ex1) \<and> in_dict ''b'' (table_columns ex1))"
    by (simp only: tc)
  have v: "fst (find_path ''t'' ex1 ''a'' ''b'' 5) = [[''a'', ''--x-->y-->'', ''b'']]" by code_simp
  show ?thesis using find_path_cached_twice[OF h1 h2, of "''u''"] v by simp
qed

text \<open>The claim as stated fails when the change to the graph takes the source out of
  the column catalog: the second call returns the empty list.\<close>

theorem find_path_cached_twice_counterexample:
  "fst (find_path ''t'' ex1 ''a'' ''b'' 5) = [[''a'', ''--x-->y-->'', ''b'']] \<and>
   fst (find_path ''u'' ((snd (find_path ''t'' ex1 ''a'' ''b'' 5))\<lparr>table_columns := [(''b'', [])]\<rparr>)
          ''a'' ''b'' 5) = []"
  by code_simp

text \<open>
  C7. In every path \<open>find_path\<close> returns, no table name occurs twice (table names are the
  elements at the even positions of a path). This holds for every mapper whose path cache
  holds such paths only, and \<open>find_path\<close> keeps the cache that way.
\<close>

theorem find_path_no_repeated_table:
  assumes "cache_distinct (path_cache s)"
  shows "(\<forall>p \<in> set (fst (find_path now s A B d)). distinct (table_nodes p)) \<and>
         cache_distinct (path_cache (snd (find_path now s A B d)))"
proof (cases "\<not> in_dict A (table_columns s) \<or> \<not> in_dict B (table_columns s)")
  case True
  then have "find_path now s A B d = ([], s)" by (simp add: find_path_def)
  then show ?thesis using assms by simp
next
  case scope: False
  show ?thesis
  proof (cases "A = B")
    case True
    then have "find_path now s A B d = ([[A]], s)" using scope by (simp add: find_path_def)
    then show ?thesis using assms by simp
  next
    case ne: False
    show ?thesis
    proof (cases "get_from_cache s A B d")
      case (Some e)
      then have fp: "find_path now s A B d = (ce_paths e, s)"
        using scope ne by (simp add: find_path_def)
      have "e \<in> snd ` set (path_cache s)"
        using Some unfolding get_from_cache_def by (force dest: map_of_SomeD)
      then have "\<forall>p \<in> set (ce_paths e). distinct (table_nodes p)"
        using assms unfolding cache_distinct_def by blast
      then show ?thesis using fp assms by simp
    next
      case None
      let ?paths = "bfs (relationships s) (reverse_relationships s) B d [(A, [A])] {} []"
      have fp: "find_path now s A B d = (?paths, save_to_cache now s A B d ?paths)"
        using scope ne None by (simp add: find_path_def Let_def)
      have d: "\<forall>q \<in> set ?paths. distinct (table_nodes q)"
        using ne by (rule bfs_initial_distinct)
      have "cache_distinct (path_cache (save_to_cache now s A B d ?paths))"
        unfolding save_to_cache_def save_cache_def using cache_distinct_update[OF assms, of _ "get_cache_key A B d"] d
        by simp
      then show ?thesis using fp d by simp
    qed
  qed
qed

theorem find_path_no_repeated_table_witness:
  "cache_distinct (path_cache ex1) \<and>
   fst (find_path ''t'' ex1 ''a'' ''b'' 5) = [[''a'', ''--x-->y-->'', ''b'']] \<and>
   distinct (table_nodes [''a'', ''--x-->y-->'', ''b''])"
proof -
  have h: "cache_distinct (path_cache ex1)" by (simp add: ex1_def cache_distinct_def)
  have v: "fst (find_path ''t'' ex1 ''a'' ''b'' 5) = [[''a'', ''--x-->y-->'', ''b'']]" by code_simp
  show ?thesis using find_path_no_repeated_table[OF h, of "''t''" "''a''" "''b''" 5] h v by simp
qed

text \<open>
  C8. If the source table or the target table is not a key of the column catalog,
  \<open>find_path\<close> returns the empty list, and the mapper is untouched.
\<close>

theorem find_path_out_of_scope:
  "\<not> in_dict A (table_columns s) \<or> \<not> in_dict B (table_columns s) \<Longrightarrow> find_path now s A B d = ([], s)"
  by (simp add: find_path_def)

theorem find_path_out_of_scope_witness:
  "\<not> in_dict ''zz'' (table_columns ex1) \<and> find_path ''t'' ex1 ''zz'' ''b'' 5 = ([], ex1)"
proof -
  have h: "\<not> in_dict ''zz'' (table_columns ex1)"
    by (simp add: ex1_def in_dict_def)
  then have "\<not> in_dict ''zz'' (table_columns ex1) \<or> \<not> in_dict ''b'' (table_columns ex1)" by simp
  then have "find_path ''t'' ex1 ''zz'' ''b'' 5 = ([], ex1)" by (rule find_path_out_of_scope)
  then show ?thesis using h by simp
qed

text \<open>
  C9. \<open>find_path\<close> leaves \<open>table_columns\<close>, \<open>relationships\<close>, \<open>reverse_relationships\<close> and
  \<open>all_tables\<close> as they were; the dictionaries are equal as lists of entries, so no
  empty entry was added for a table that was looked up.
\<close>

theorem find_path_frame:
  "table_columns (snd (find_path now s A B d)) = table_columns s \<and>
   relationships (snd (find_path now s A B d)) = relationships s \<and>
   reverse_relationships (snd (find_path now s A B d)) = reverse_relationships s \<and>
   all_tables (snd (find_path now s A B d)) = all_tables s"
  by (simp add: find_path_def save_to_cache_def save_cache_def Let_def split: option.split)

theorem find_path_frame_witness:
  "relationships (snd (find_path ''t'' ex1 ''a'' ''b'' 5)) = [(''a'', [(''b'', ''x'', ''y'', PyTuple)])] \<and>
   reverse_relationships (snd (find_path ''t'' ex1 ''a'' ''b'' 5)) = [(''b'', [(''a'', ''y'', ''x'', PyTuple)])] \<and>
   table_columns (snd (find_path ''t'' ex1 ''a'' ''b'' 5)) = [(''a'', []), (''b'', [])] \<and>
   all_tables (snd (find_path ''t'' ex1 ''a'' ''b'' 5)) = {''a'', ''b''}"
  using find_path_frame[of "''t''" ex1 "''a''" "''b''" 5] by (simp add: ex1_def)

text \<open>
  C10. The key of the path cache is not injective: the queries from "a, arrow, b" to \<open>c\<close>
  and from \<open>a\<close> to "b, arrow, c" at the same depth are different and have the same key.
  In \<open>ex_arrow\<close> the second query alone finds no path; asked after the first, it is
  answered from the cache with the path of the first.
\<close>

theorem cache_key_collision:
  "(''a'' @ arrow @ ''b'', ''c'', 5::int) \<noteq> (''a'', ''b'' @ arrow @ ''c'', 5) \<and>
   get_cache_key (''a'' @ arrow @ ''b'') ''c'' 5 = get_cache_key ''a'' (''b'' @ arrow @ ''c'') 5 \<and>
   fst (find_path ''t'' ex_arrow ''a'' (''b'' @ arrow @ ''c'') 5) = [] \<and>
   fst (find_path ''t'' ex_arrow (''a'' @ arrow @ ''b'') ''c'' 5)
     = [[''a'' @ arrow @ ''b'', ''--x-->y-->'', ''c'']] \<and>
   fst (find_path ''u'' (snd (find_path ''t'' ex_arrow (''a'' @ arrow @ ''b'') ''c'' 5))
          ''a'' (''b'' @ arrow @ ''c'') 5)
     = [[''a'' @ arrow @ ''b'', ''--x-->y-->'', ''c'']]"
  by code_simp

theorem cache_key_collision_witness:
  "get_cache_key (''a'' @ arrow @ ''b'') ''c'' 5 = ''a'' @ arrow @ ''b'' @ arrow @ ''c:5'' \<and>
   get_cache_key ''a'' (''b'' @ arrow @ ''c'') 5 = ''a'' @ arrow @ ''b'' @ arrow @ ''c:5''"
proof -
  have "get_cache_key (''a'' @ arrow @ ''b'') ''c'' 5 = ''a'' @ arrow @ ''b'' @ arrow @ ''c:5''"
    by code_simp
  then show ?thesis using cache_key_collision by simp
qed

section \<open>The claims on the mapping cache and the mapping run\<close>









end
